theory Spec2Isabelle
  imports Main
begin

section \<open>Data model\<close>

text \<open>
  A Python \<open>str\<close> is a sequence of Unicode code points; a code point is a natural number.
  \<open>lit\<close> reads an ASCII literal of the source as such a sequence.
\<close>

type_synonym str = "nat list"

definition lit :: "string \<Rightarrow> str" where
  "lit s = map of_char s"

text \<open>
  The table \<open>tasks\<close> of \<open>create_table\<close>:
  \<^verbatim>\<open>
  id INTEGER PRIMARY KEY AUTOINCREMENT,
  title TEXT NOT NULL,
  priority TEXT NOT NULL,
  is_completed INTEGER DEFAULT 0,
  task_date TEXT NOT NULL,
  created_at TEXT DEFAULT CURRENT_TIMESTAMP
  \<close>
  One record per row, one field per column. The column \<open>id\<close> is the rowid of the row.
\<close>

record task =
  task_id :: int
  title :: str
  priority :: str
  is_completed :: int
  task_date :: str
  created_at :: str

text \<open>
  The database file. \<open>tasks\<close> holds the rows of the table in the order in which a scan of
  the table visits them, which for a rowid table is ascending rowid. \<open>sqlite_sequence\<close> is
  the entry that \<open>AUTOINCREMENT\<close> keeps for the table: the largest rowid ever allocated,
  0 before the first insert.
\<close>

record store =
  tasks :: "task list"
  sqlite_sequence :: int

datatype db_error = SQLITE_FULL | UnicodeEncodeError

text \<open>The largest rowid a table can hold: \<open>2^63 - 1\<close>.\<close>

definition MAX_ROWID :: int where
  "MAX_ROWID = 9223372036854775807"

section \<open>TaskDatabase\<close>

text \<open>
  \<open>create_table\<close> runs \<open>CREATE TABLE IF NOT EXISTS\<close>: on a file without the table
  (\<open>None\<close>) it creates the empty table, on a file with the table it changes nothing.
\<close>

definition create_table :: "store option \<Rightarrow> store" where
  "create_table f = (case f of
       None \<Rightarrow> \<lparr>tasks = [], sqlite_sequence = 0\<rparr>
     | Some S \<Rightarrow> S)"

text \<open>The largest rowid in the table, 0 for the empty table.\<close>

fun largest_rowid :: "task list \<Rightarrow> int" where
  "largest_rowid [] = 0"
| "largest_rowid (r # rs) = max (task_id r) (largest_rowid rs)"

text \<open>
  The rowid an \<open>INSERT\<close> without an explicit id allocates under \<open>AUTOINCREMENT\<close>: one
  more than the larger of the largest rowid in the table and the \<open>sqlite_sequence\<close>
  entry; when that is already the largest possible rowid the statement fails with
  \<open>SQLITE_FULL\<close>.
\<close>

definition new_rowid :: "store \<Rightarrow> db_error + int" where
  "new_rowid S =
     (let m = max (largest_rowid (tasks S)) (sqlite_sequence S)
      in if MAX_ROWID \<le> m then Inl SQLITE_FULL else Inr (m + 1))"

text \<open>
  A \<open>str\<close> argument of a statement is bound as text in UTF-8. The surrogate code points,
  U+D800 to U+DFFF, have no UTF-8 encoding: binding a \<open>str\<close> that holds one raises
  \<open>UnicodeEncodeError\<close> before the statement runs.
\<close>

definition is_surrogate :: "nat \<Rightarrow> bool" where
  "is_surrogate c = (55296 \<le> c \<and> c \<le> 57343)"

definition encodable :: "str \<Rightarrow> bool" where
  "encodable s = (filter is_surrogate s = [])"

text \<open>A row enters the table at the place of its rowid.\<close>

fun insert_row :: "task \<Rightarrow> task list \<Rightarrow> task list" where
  "insert_row r [] = [r]"
| "insert_row r (x # xs) =
     (if task_id r < task_id x then r # x # xs else x # insert_row r xs)"

text \<open>
  \<^verbatim>\<open>
  def add_task(self, title, priority, task_date):
      with self.connect() as conn:
          conn.execute(
              "INSERT INTO tasks (title, priority, task_date) VALUES (?, ?, ?)",
              (title, priority, task_date))
  \<close>
  The columns the statement does not name take their defaults: \<open>is_completed\<close> is 0 and
  \<open>created_at\<close> is the clock reading \<open>now\<close> of the moment of the call. The three
  arguments are bound first, then the statement runs and allocates the rowid. A call
  that raises, at the binding or in the statement, inserts nothing, and the connection's
  context manager rolls back: the caller keeps the store it had.
\<close>

definition add_task :: "str \<Rightarrow> str \<Rightarrow> str \<Rightarrow> str \<Rightarrow> store \<Rightarrow> db_error + store" where
  "add_task now t p d S =
     (if encodable t \<and> encodable p \<and> encodable d then
        (case new_rowid S of
           Inl e \<Rightarrow> Inl e
         | Inr i \<Rightarrow>
             Inr \<lparr>tasks = insert_row
                    \<lparr>task_id = i, title = t, priority = p, is_completed = 0,
                     task_date = d, created_at = now\<rparr> (tasks S),
                  sqlite_sequence = i\<rparr>)
      else Inl UnicodeEncodeError)"

text \<open>
  \<^verbatim>\<open>
  def get_tasks(self, task_date, filter_type="ALL"):
      query = "SELECT id, title, priority, is_completed FROM tasks WHERE task_date = ?"
      if filter_type == "COMPLETED":
          query += " AND is_completed = 1"
      elif filter_type == "PENDING":
          query += " AND is_completed = 0"
      ... return cursor.fetchall()
  \<close>
  \<open>get_tasks\<close> gives the rows that the query selects. (With a date that cannot be encoded
  the call raises at the binding and returns no rows at all; no stored row has such a
  date, since \<open>add_task\<close> stores none.)
\<close>

type_synonym row = "int \<times> str \<times> str \<times> int"

definition select_row :: "task \<Rightarrow> row" where
  "select_row r = (task_id r, title r, priority r, is_completed r)"

definition where_clause :: "str \<Rightarrow> str \<Rightarrow> task \<Rightarrow> bool" where
  "where_clause task_date' filter_type r =
     (if filter_type = lit ''COMPLETED'' then task_date r = task_date' \<and> is_completed r = 1
      else if filter_type = lit ''PENDING'' then task_date r = task_date' \<and> is_completed r = 0
      else task_date r = task_date')"

definition get_tasks :: "str \<Rightarrow> str \<Rightarrow> store \<Rightarrow> row list" where
  "get_tasks task_date' filter_type S =
     map select_row (filter (where_clause task_date' filter_type) (tasks S))"

text \<open>
  \<^verbatim>\<open>
  def update_task(self, task_id, is_completed):
      ... "UPDATE tasks SET is_completed = ? WHERE id = ?", (int(is_completed), task_id)
  \<close>
  The argument is the value of the check box, a \<open>bool\<close>; \<open>int\<close> makes it 1 or 0.
\<close>

definition update_task :: "int \<Rightarrow> bool \<Rightarrow> store \<Rightarrow> store" where
  "update_task i b S =
     S\<lparr>tasks := map (\<lambda>r. if task_id r = i then r\<lparr>is_completed := of_bool b\<rparr> else r) (tasks S)\<rparr>"

text \<open>
  \<^verbatim>\<open>
  def delete_task(self, task_id):
      ... "DELETE FROM tasks WHERE id = ?", (task_id,)
  \<close>
\<close>

definition delete_task :: "int \<Rightarrow> store \<Rightarrow> store" where
  "delete_task i S = S\<lparr>tasks := filter (\<lambda>r. task_id r \<noteq> i) (tasks S)\<rparr>"

section \<open>Sequences of calls\<close>

text \<open>
  A client of \<open>TaskDatabase\<close> changes the store by \<open>add_task\<close>, \<open>update_task\<close> and
  \<open>delete_task\<close> only. An \<open>add_task\<close> that raises leaves the store as it was.
\<close>

datatype op = AddTask str str str str | UpdateTask int bool | DeleteTask int

fun step :: "op \<Rightarrow> store \<Rightarrow> store" where
  "step (AddTask now t p d) S = (case add_task now t p d S of Inl e \<Rightarrow> S | Inr S' \<Rightarrow> S')"
| "step (UpdateTask i b) S = update_task i b S"
| "step (DeleteTask i) S = delete_task i S"

fun run :: "op list \<Rightarrow> store \<Rightarrow> store" where
  "run [] S = S"
| "run (x # xs) S = run xs (step x S)"

text \<open>
  The identifiers that the calls of a sequence assign to new rows, in the order of the
  calls that add them. An \<open>add_task\<close> that raises assigns none.
\<close>

fun assigned_by :: "op \<Rightarrow> store \<Rightarrow> int list" where
  "assigned_by (AddTask now t p d) S =
     (if encodable t \<and> encodable p \<and> encodable d then
        (case new_rowid S of Inl e \<Rightarrow> [] | Inr i \<Rightarrow> [i])
      else [])"
| "assigned_by (UpdateTask i b) S = []"
| "assigned_by (DeleteTask i) S = []"

fun assigned :: "op list \<Rightarrow> store \<Rightarrow> int list" where
  "assigned [] S = []"
| "assigned (x # xs) S = assigned_by x S @ assigned xs (step x S)"

text \<open>
  What the schema and the statements above keep true of the store: the rows are in
  ascending rowid order with no rowid twice (\<open>PRIMARY KEY\<close>), no rowid is beyond the
  \<open>sqlite_sequence\<close> entry, and \<open>is_completed\<close> is 0 or 1.
\<close>

definition store_inv :: "store \<Rightarrow> bool" where
  "store_inv S =
     (sorted_wrt (<) (map task_id (tasks S)) \<and>
      list_all (\<lambda>r. task_id r \<le> sqlite_sequence S) (tasks S) \<and>
      list_all (\<lambda>r. is_completed r = 0 \<or> is_completed r = 1) (tasks S))"

section \<open>TaskItem and TaskManagerApp\<close>

text \<open>
  \<open>str.isspace\<close> on one code point, and \<open>str.strip()\<close>, which drops the white space at
  both ends.
\<close>

definition isspace :: "nat \<Rightarrow> bool" where
  "isspace c =
     ((9 \<le> c \<and> c \<le> 13) \<or> (28 \<le> c \<and> c \<le> 32) \<or> c = 133 \<or> c = 160 \<or> c = 5760 \<or>
      (8192 \<le> c \<and> c \<le> 8202) \<or> c = 8232 \<or> c = 8233 \<or> c = 8239 \<or> c = 8287 \<or> c = 12288)"

definition strip :: "str \<Rightarrow> str" where
  "strip s = rev (dropWhile isspace (rev (dropWhile isspace s)))"

text \<open>
  What \<open>TaskItem.__init__\<close> makes of a row: the identifier, the label
  \<open>f"[{priority}] {title}"\<close> and the value \<open>bool(is_completed)\<close> of the check box, the
  colour \<open>PRIORITY_COLORS.get(priority)\<close> and the strike-through of the label.
\<close>

record task_item =
  item_id :: int
  label :: str
  checkbox_value :: bool
  color :: "str option"
  line_through :: bool

definition PRIORITY_COLORS :: "str \<rightharpoonup> str" where
  "PRIORITY_COLORS =
     [lit ''Low'' \<mapsto> lit ''green'', lit ''Medium'' \<mapsto> lit ''orange'', lit ''High'' \<mapsto> lit ''red'']"

definition TaskItem :: "row \<Rightarrow> task_item" where
  "TaskItem x = (case x of (i, t, p, c) \<Rightarrow>
     \<lparr>item_id = i, label = lit ''['' @ p @ lit ''] '' @ t, checkbox_value = (c \<noteq> 0),
      color = PRIORITY_COLORS p, line_through = (c \<noteq> 0)\<rparr>)"

text \<open>The fields of \<open>TaskManagerApp\<close> that its actions read and write.\<close>

record app =
  db :: store
  selected_date :: str
  current_filter :: str
  task_input :: str
  priority_dropdown :: str
  tasks_column :: "task_item list"

text \<open>
  \<^verbatim>\<open>
  def load_tasks(self):
      self.tasks_column.controls.clear()
      tasks = self.db.get_tasks(self.selected_date, self.current_filter)
      for task_id, title, priority, is_completed in tasks:
          self.tasks_column.controls.append(TaskItem(...))
  \<close>
\<close>

definition load_tasks :: "app \<Rightarrow> app" where
  "load_tasks a =
     a\<lparr>tasks_column := map TaskItem (get_tasks (selected_date a) (current_filter a) (db a))\<rparr>"

text \<open>
  \<^verbatim>\<open>
  def add_task(self, e):
      title = self.task_input.value.strip()
      if not title:
          return
      self.db.add_task(title, self.priority_dropdown.value, self.selected_date)
      self.task_input.value = ""
      self.load_tasks()
  \<close>
  An exception of \<open>db.add_task\<close> is not caught: it leaves the action.
\<close>

definition app_add_task :: "str \<Rightarrow> app \<Rightarrow> db_error + app" where
  "app_add_task now a =
     (let title' = strip (task_input a)
      in if title' = [] then Inr a
         else case add_task now title' (priority_dropdown a) (selected_date a) (db a) of
                Inl e \<Rightarrow> Inl e
              | Inr S' \<Rightarrow> Inr (load_tasks (a\<lparr>db := S', task_input := []\<rparr>)))"

section \<open>Example data\<close>

text \<open>
  A store with two tasks of one day, the first completed, and a sequence of calls on a new
  store: two tasks are added, the first is deleted, a third is added and the second is
  completed.
\<close>

definition example_store :: store where
  "example_store =
     \<lparr>tasks = [\<lparr>task_id = 1, title = lit ''Buy milk'', priority = lit ''Medium'',
                is_completed = 1, task_date = lit ''2024-01-01'',
                created_at = lit ''2024-01-01 09:00:00''\<rparr>,
               \<lparr>task_id = 2, title = lit ''Call Bob'', priority = lit ''High'',
                is_completed = 0, task_date = lit ''2024-01-01'',
                created_at = lit ''2024-01-01 09:05:00''\<rparr>],
      sqlite_sequence = 2\<rparr>"

definition example_calls :: "op list" where
  "example_calls =
     [AddTask (lit ''2024-01-01 09:00:00'') (lit ''Buy milk'') (lit ''Medium'') (lit ''2024-01-01''),
      AddTask (lit ''2024-01-01 09:05:00'') (lit ''Call Bob'') (lit ''High'') (lit ''2024-01-01''),
      DeleteTask 1,
      AddTask (lit ''2024-01-01 09:10:00'') (lit ''Pay rent'') (lit ''Low'') (lit ''2024-01-01''),
      UpdateTask 2 True]"

section \<open>Basic facts about the statements\<close>

lemma largest_rowid_ge: "r \<in> set rs \<Longrightarrow> task_id r \<le> largest_rowid rs"
  by (induction rs) auto

lemma new_rowid_fresh:
  assumes "new_rowid S = Inr i"
  shows "r \<in> set (tasks S) \<Longrightarrow> task_id r < i" and "sqlite_sequence S < i" and "i \<le> MAX_ROWID"
  using assms largest_rowid_ge[of r "tasks S"]
  by (auto simp: new_rowid_def Let_def split: if_splits)

lemma new_rowid_Inr_iff:
  "(\<exists>i. new_rowid S = Inr i) \<longleftrightarrow> max (largest_rowid (tasks S)) (sqlite_sequence S) < MAX_ROWID"
  by (auto simp: new_rowid_def Let_def)

lemma insert_row_last: "\<forall>x \<in> set xs. task_id x < task_id r \<Longrightarrow> insert_row r xs = xs @ [r]"
  by (induction xs) auto

lemma add_task_append:
  assumes "new_rowid S = Inr i" and "encodable t" and "encodable p" and "encodable d"
  shows "add_task now t p d S =
     Inr \<lparr>tasks = tasks S @ [\<lparr>task_id = i, title = t, priority = p, is_completed = 0,
                  task_date = d, created_at = now\<rparr>], sqlite_sequence = i\<rparr>"
proof -
  have "\<forall>x \<in> set (tasks S). task_id x < i"
    using new_rowid_fresh(1)[OF assms(1)] by blast
  then show ?thesis
    using assms by (simp add: add_task_def insert_row_last)
qed

lemma add_task_not_encodable:
  "\<not> (encodable t \<and> encodable p \<and> encodable d) \<Longrightarrow>
   add_task now t p d S = Inl UnicodeEncodeError"
  by (simp only: add_task_def if_False)

text \<open>An \<open>add_task\<close> either raises and assigns no identifier, or appends the new row.\<close>

lemma add_task_cases [case_names raises inserts]:
  obtains e where "add_task now t p d S = Inl e" and "assigned_by (AddTask now t p d) S = []"
        and "step (AddTask now t p d) S = S"
  | i where "new_rowid S = Inr i"
        and "add_task now t p d S =
           Inr \<lparr>tasks = tasks S @ [\<lparr>task_id = i, title = t, priority = p, is_completed = 0,
                  task_date = d, created_at = now\<rparr>], sqlite_sequence = i\<rparr>"
        and "assigned_by (AddTask now t p d) S = [i]"
        and "step (AddTask now t p d) S =
           \<lparr>tasks = tasks S @ [\<lparr>task_id = i, title = t, priority = p, is_completed = 0,
                  task_date = d, created_at = now\<rparr>], sqlite_sequence = i\<rparr>"
proof (cases "encodable t \<and> encodable p \<and> encodable d")
  case False
  then have "add_task now t p d S = Inl UnicodeEncodeError"
    by (rule add_task_not_encodable)
  moreover have "assigned_by (AddTask now t p d) S = []"
    using False by (simp only: assigned_by.simps if_False)
  ultimately show ?thesis
    using that(1) by (simp del: assigned_by.simps)
next
  case True
  show ?thesis
  proof (cases "new_rowid S")
    case (Inl e)
    then have "add_task now t p d S = Inl e"
      using True by (simp add: add_task_def)
    moreover have "assigned_by (AddTask now t p d) S = []"
      using Inl True by simp
    ultimately show ?thesis
      using that(1) by (simp del: assigned_by.simps)
  next
    case (Inr i)
    have a: "add_task now t p d S =
           Inr \<lparr>tasks = tasks S @ [\<lparr>task_id = i, title = t, priority = p, is_completed = 0,
                  task_date = d, created_at = now\<rparr>], sqlite_sequence = i\<rparr>"
      using Inr True by (simp add: add_task_append)
    have b: "assigned_by (AddTask now t p d) S = [i]"
      using Inr True by simp
    show ?thesis
      using that(2)[OF Inr a b] a by (simp del: assigned_by.simps)
  qed
qed

lemma where_clause_ALL: "where_clause D (lit ''ALL'') r = (task_date r = D)"
  by (simp add: where_clause_def lit_def)

lemma where_clause_COMPLETED:
  "where_clause D (lit ''COMPLETED'') r = (task_date r = D \<and> is_completed r = 1)"
  by (simp add: where_clause_def)

lemma where_clause_PENDING:
  "where_clause D (lit ''PENDING'') r = (task_date r = D \<and> is_completed r = 0)"
  by (simp add: where_clause_def lit_def)

lemma where_clause_other:
  "f \<noteq> lit ''COMPLETED'' \<Longrightarrow> f \<noteq> lit ''PENDING'' \<Longrightarrow> where_clause D f r = (task_date r = D)"
  by (simp add: where_clause_def)

lemma where_clause_date: "where_clause D f r \<Longrightarrow> task_date r = D"
  by (simp add: where_clause_def split: if_splits)

section \<open>The invariant of the store\<close>

lemma store_inv_distinct: "store_inv S \<Longrightarrow> distinct (map task_id (tasks S))"
  by (simp add: store_inv_def strict_sorted_iff)

lemma store_inv_seq: "store_inv S \<Longrightarrow> r \<in> set (tasks S) \<Longrightarrow> task_id r \<le> sqlite_sequence S"
  by (simp add: store_inv_def list_all_iff)

lemma store_inv_flag:
  "store_inv S \<Longrightarrow> r \<in> set (tasks S) \<Longrightarrow> is_completed r = 0 \<or> is_completed r = 1"
  by (simp add: store_inv_def list_all_iff)

lemma store_inv_create_table: "store_inv (create_table None)"
  by (simp add: store_inv_def create_table_def)

lemma store_inv_add_task:
  assumes "store_inv S" and "add_task now t p d S = Inr S'"
  shows "store_inv S'"
proof -
  from assms(2) obtain i where i: "new_rowid S = Inr i"
    and S': "S' = \<lparr>tasks = tasks S @ [\<lparr>task_id = i, title = t, priority = p, is_completed = 0,
                  task_date = d, created_at = now\<rparr>], sqlite_sequence = i\<rparr>"
    by (cases rule: add_task_cases[of now t p d S]) auto
  have lt: "\<forall>r \<in> set (tasks S). task_id r < i"
    using new_rowid_fresh(1)[OF i] by blast
  have "sorted_wrt (<) (map task_id (tasks S) @ [i])"
    using assms(1) lt by (simp add: store_inv_def sorted_wrt_append)
  moreover have "list_all (\<lambda>r. task_id r \<le> i) (tasks S)"
    using lt by (fastforce simp: list_all_iff)
  ultimately show ?thesis
    using assms(1) by (simp add: S' store_inv_def)
qed

lemma map_task_id_update:
  "map task_id (map (\<lambda>r. if task_id r = i then r\<lparr>is_completed := c\<rparr> else r) xs) = map task_id xs"
  by (induction xs) auto

lemma store_inv_update_task:
  assumes "store_inv S"
  shows "store_inv (update_task i b S)"
proof -
  let ?g = "\<lambda>r. if task_id r = i then r\<lparr>is_completed := of_bool b\<rparr> else r"
  have 1: "sorted_wrt (<) (map task_id (map ?g (tasks S)))"
    using assms by (simp only: map_task_id_update store_inv_def)
  have 2: "list_all (\<lambda>r. task_id r \<le> sqlite_sequence S) (map ?g (tasks S))"
    using assms by (auto simp: store_inv_def list_all_iff)
  have 3: "list_all (\<lambda>r. is_completed r = 0 \<or> is_completed r = 1) (map ?g (tasks S))"
    using assms by (auto simp: store_inv_def list_all_iff)
  from 1 2 3 show ?thesis
    by (simp add: store_inv_def update_task_def)
qed

lemma store_inv_delete_task:
  assumes "store_inv S"
  shows "store_inv (delete_task i S)"
proof -
  have "sorted_wrt (<) (map task_id (filter (\<lambda>r. task_id r \<noteq> i) (tasks S)))"
    using assms by (simp add: store_inv_def sorted_wrt_map sorted_wrt_filter)
  then show ?thesis
    using assms by (auto simp: store_inv_def delete_task_def list_all_iff)
qed

lemma store_inv_step: "store_inv S \<Longrightarrow> store_inv (step x S)"
  by (cases x) (auto simp: store_inv_update_task store_inv_delete_task
      intro: store_inv_add_task split: sum.splits)

lemma store_inv_run: "store_inv S \<Longrightarrow> store_inv (run ops S)"
  by (induction ops arbitrary: S) (simp_all add: store_inv_step)

section \<open>Facts about sequences of calls\<close>

lemma sqlite_sequence_step: "sqlite_sequence S \<le> sqlite_sequence (step x S)"
proof (cases x)
  case (AddTask now t p d)
  show ?thesis
  proof (cases rule: add_task_cases[of now t p d S])
    case (raises e)
    then show ?thesis by (simp add: AddTask del: step.simps)
  next
    case (inserts i)
    then show ?thesis
      using new_rowid_fresh(2)[of S i] by (simp add: AddTask del: step.simps)
  qed
qed (simp_all add: update_task_def delete_task_def)

lemma assigned_by_gt:
  assumes "j \<in> set (assigned_by x S)"
  shows "sqlite_sequence S < j"
proof (cases x)
  case (AddTask now t p d)
  show ?thesis
  proof (cases rule: add_task_cases[of now t p d S])
    case (raises e)
    with assms AddTask show ?thesis by (simp del: assigned_by.simps step.simps)
  next
    case (inserts i)
    with assms AddTask have "j = i" by (simp del: assigned_by.simps step.simps)
    with new_rowid_fresh(2)[OF inserts(1)] show ?thesis by simp
  qed
next
  case (UpdateTask i b)
  with assms show ?thesis by simp
next
  case (DeleteTask i)
  with assms show ?thesis by simp
qed

lemma assigned_gt: "j \<in> set (assigned ops S) \<Longrightarrow> sqlite_sequence S < j"
proof (induction ops arbitrary: S)
  case Nil
  then show ?case by simp
next
  case (Cons x xs)
  from Cons.prems consider "j \<in> set (assigned_by x S)" | "j \<in> set (assigned xs (step x S))"
    by auto
  then show ?case
  proof cases
    case 1
    then show ?thesis by (rule assigned_by_gt)
  next
    case 2
    then have "sqlite_sequence (step x S) < j" by (rule Cons.IH)
    with sqlite_sequence_step[of S x] show ?thesis by simp
  qed
qed

lemma ids_step:
  "task_id ` set (tasks (step x S)) \<subseteq> task_id ` set (tasks S) \<union> set (assigned_by x S)"
proof (cases x)
  case (AddTask now t p d)
  show ?thesis
  proof (cases rule: add_task_cases[of now t p d S])
    case (raises e)
    then show ?thesis by (simp add: AddTask del: assigned_by.simps step.simps)
  next
    case (inserts i)
    then show ?thesis by (auto simp add: AddTask simp del: assigned_by.simps step.simps)
  qed
next
  case (UpdateTask i b)
  then show ?thesis by (auto simp: update_task_def)
next
  case (DeleteTask i)
  then show ?thesis by (auto simp: delete_task_def)
qed

lemma ids_run:
  "task_id ` set (tasks (run ops S)) \<subseteq> task_id ` set (tasks S) \<union> set (assigned ops S)"
proof (induction ops arbitrary: S)
  case Nil
  then show ?case by simp
next
  case (Cons x xs)
  have "task_id ` set (tasks (run xs (step x S)))
      \<subseteq> task_id ` set (tasks (step x S)) \<union> set (assigned xs (step x S))"
    by (rule Cons.IH)
  with ids_step[of x S] show ?case by simp blast
qed


lemma get_tasks_ids: "fst ` set (get_tasks D f S) \<subseteq> task_id ` set (tasks S)"
  by (auto simp: get_tasks_def select_row_def)

lemma delete_task_absent: "i \<notin> task_id ` set (tasks (delete_task i S))"
  by (auto simp: delete_task_def)

lemma deleted_id_never_reassigned:
  assumes "store_inv S" and "r \<in> set (tasks S)"
  shows "task_id r \<notin> set (assigned ops (delete_task (task_id r) S))"
proof
  assume "task_id r \<in> set (assigned ops (delete_task (task_id r) S))"
  then have "sqlite_sequence (delete_task (task_id r) S) < task_id r"
    by (rule assigned_gt)
  moreover have "task_id r \<le> sqlite_sequence S"
    using assms by (rule store_inv_seq)
  ultimately show False by (simp add: delete_task_def)
qed

lemma step_keeps_date:
  assumes "i \<le> sqlite_sequence S"
    and "\<forall>r \<in> set (tasks S). task_id r = i \<longrightarrow> task_date r = D"
  shows "\<forall>r \<in> set (tasks (step x S)). task_id r = i \<longrightarrow> task_date r = D"
proof (cases x)
  case (AddTask now t p d)
  show ?thesis
  proof (cases rule: add_task_cases[of now t p d S])
    case (raises e)
    with assms(2) AddTask show ?thesis by (simp del: step.simps)
  next
    case (inserts j)
    have "i < j" using new_rowid_fresh(2)[OF inserts(1)] assms(1) by simp
    with assms(2) AddTask inserts show ?thesis by (simp del: step.simps assigned_by.simps)
  qed
next
  case (UpdateTask j b)
  with assms(2) show ?thesis by (auto simp: update_task_def)
next
  case (DeleteTask j)
  with assms(2) show ?thesis by (simp add: delete_task_def)
qed

lemma run_keeps_date:
  assumes "i \<le> sqlite_sequence S"
    and "\<forall>r \<in> set (tasks S). task_id r = i \<longrightarrow> task_date r = D"
  shows "\<forall>r \<in> set (tasks (run ops S)). task_id r = i \<longrightarrow> task_date r = D"
  using assms
proof (induction ops arbitrary: S)
  case Nil
  then show ?case by simp
next
  case (Cons x xs)
  have "i \<le> sqlite_sequence (step x S)"
    using Cons.prems(1) sqlite_sequence_step[of S x] by simp
  moreover have "\<forall>r \<in> set (tasks (step x S)). task_id r = i \<longrightarrow> task_date r = D"
    using Cons.prems by (rule step_keeps_date)
  ultimately show ?case
    using Cons.IH by simp
qed

lemma assigned_by_le:
  assumes "j \<in> set (assigned_by x S)"
  shows "j \<le> sqlite_sequence (step x S)"
proof (cases x)
  case (AddTask now t p d)
  show ?thesis
  proof (cases rule: add_task_cases[of now t p d S])
    case (raises e)
    with assms AddTask show ?thesis by (simp del: assigned_by.simps step.simps)
  next
    case (inserts i)
    with assms AddTask show ?thesis by (simp del: assigned_by.simps step.simps)
  qed
next
  case (UpdateTask i b)
  with assms show ?thesis by simp
next
  case (DeleteTask i)
  with assms show ?thesis by simp
qed

lemma filter_map_filter_neq:
  "\<not> F j \<Longrightarrow> filter F (map g (filter (\<lambda>r. g r \<noteq> j) ys)) = filter F (map g ys)"
  by (induction ys) auto

lemma filter_filter_sub: "(\<And>k. Q k \<Longrightarrow> R k) \<Longrightarrow> filter Q (filter R xs) = filter Q xs"
  by (induction xs) auto

lemma sorted_assigned: "sorted_wrt (<) (assigned ops S)"
proof (induction ops arbitrary: S)
  case Nil
  then show ?case by simp
next
  case (Cons x xs)
  have 1: "sorted_wrt (<) (assigned_by x S)"
    by (cases x) (simp_all split: sum.splits)
  have 2: "sorted_wrt (<) (assigned xs (step x S))"
    by (rule Cons.IH)
  have 3: "j < k" if "j \<in> set (assigned_by x S)" and "k \<in> set (assigned xs (step x S))" for j k
    using assigned_by_le[OF that(1)] assigned_gt[OF that(2)] by simp
  from 1 2 3 show ?case
    by (simp add: sorted_wrt_append)
qed

lemma map_filter_distinct:
  assumes "distinct (map g xs)"
  shows "map g (filter P xs) = filter (\<lambda>k. k \<in> g ` set (filter P xs)) (map g xs)"
  using assms
proof (induction xs)
  case Nil
  then show ?case by simp
next
  case (Cons x xs)
  then have notin: "g x \<notin> g ` set xs" and d: "distinct (map g xs)"
    by simp_all
  have IH: "map g (filter P xs) = filter (\<lambda>k. k \<in> g ` set (filter P xs)) (map g xs)"
    using Cons.IH d by blast
  show ?case
  proof (cases "P x")
    case True
    have "filter (\<lambda>k. k = g x \<or> k \<in> g ` set (filter P xs)) (map g xs)
        = filter (\<lambda>k. k \<in> g ` set (filter P xs)) (map g xs)"
    proof (rule filter_cong[OF refl])
      fix k
      assume "k \<in> set (map g xs)"
      then have "k \<in> g ` set xs" by simp
      with notin have "k \<noteq> g x" by blast
      then show "(k = g x \<or> k \<in> g ` set (filter P xs)) = (k \<in> g ` set (filter P xs))"
        by simp
    qed
    with True IH show ?thesis by simp
  next
    case False
    have "g x \<notin> g ` set (filter P xs)"
      using notin by auto
    with False IH show ?thesis by simp
  qed
qed

lemma ids_run_order:
  assumes "store_inv S"
  shows "map task_id (tasks (run ops S)) =
         filter (\<lambda>j. j \<in> task_id ` set (tasks (run ops S))) (map task_id (tasks S) @ assigned ops S)"
  using assms
proof (induction ops arbitrary: S)
  case Nil
  then show ?case by (simp add: filter_id_conv)
next
  case (Cons x xs)
  let ?S1 = "step x S"
  let ?F = "\<lambda>j. j \<in> task_id ` set (tasks (run xs ?S1))"
  have inv1: "store_inv ?S1"
    using Cons.prems by (rule store_inv_step)
  have IH: "map task_id (tasks (run xs ?S1)) =
      filter ?F (map task_id (tasks ?S1) @ assigned xs ?S1)"
    using inv1 by (rule Cons.IH)
  have head: "filter ?F (map task_id (tasks ?S1)) =
      filter ?F (map task_id (tasks S) @ assigned_by x S)"
  proof (cases x)
    case (AddTask now t p d)
    show ?thesis
    proof (cases rule: add_task_cases[of now t p d S])
      case (raises e)
      then show ?thesis by (simp add: AddTask del: assigned_by.simps step.simps)
    next
      case (inserts i)
      then show ?thesis by (simp add: AddTask del: assigned_by.simps step.simps)
    qed
  next
    case (UpdateTask i b)
    have "map task_id (tasks (update_task i b S)) = map task_id (tasks S)"
      using map_task_id_update[of i "of_bool b" "tasks S"] by (simp add: update_task_def)
    then show ?thesis by (simp add: UpdateTask)
  next
    case (DeleteTask j)
    show ?thesis
    proof (cases "j \<in> task_id ` set (tasks S)")
      case False
      then have "filter (\<lambda>r. task_id r \<noteq> j) (tasks S) = tasks S"
        by (auto simp: filter_id_conv)
      then show ?thesis by (simp add: DeleteTask delete_task_def)
    next
      case True
      then obtain r where r: "r \<in> set (tasks S)" "task_id r = j" by auto
      have "j \<notin> set (assigned xs (delete_task j S))"
        using deleted_id_never_reassigned[OF Cons.prems r(1)] r(2) by simp
      moreover have "j \<notin> task_id ` set (tasks (delete_task j S))"
        by (rule delete_task_absent)
      ultimately have nF: "\<not> ?F j"
        using ids_run[of xs "delete_task j S"] DeleteTask by auto
      have "filter ?F (map task_id (filter (\<lambda>r. task_id r \<noteq> j) (tasks S)))
          = filter ?F (map task_id (tasks S))"
        using nF by (rule filter_map_filter_neq)
      then show ?thesis by (simp add: DeleteTask delete_task_def)
    qed
  qed
  show ?case
    using IH head by simp
qed

lemma filter_flag_split:
  assumes "\<And>r. r \<in> set xs \<Longrightarrow> is_completed r = 0 \<or> is_completed r = (1::int)"
  shows "length (filter (\<lambda>r. task_date r = D) xs) =
         length (filter (\<lambda>r. task_date r = D \<and> is_completed r = 1) xs) +
         length (filter (\<lambda>r. task_date r = D \<and> is_completed r = 0) xs)"
  using assms by (induction xs) auto

lemma count_id_le_1:
  assumes "distinct (map task_id xs)"
  shows "length (filter (\<lambda>r. task_id r = i) xs) = (if i \<in> task_id ` set xs then 1 else 0)"
  using assms by (induction xs) (auto simp: filter_empty_conv)

lemma strip_Nil_iff: "strip s = [] \<longleftrightarrow> list_all isspace s"
proof
  assume "list_all isspace s"
  then have dw: "dropWhile isspace s = []"
    by (simp add: list_all_iff)
  show "strip s = []"
    unfolding strip_def dw by simp
next
  assume "strip s = []"
  then have all: "\<forall>c \<in> set (dropWhile isspace s). isspace c"
    by (simp add: strip_def)
  have "dropWhile isspace s = []"
  proof (rule ccontr)
    assume ne: "dropWhile isspace s \<noteq> []"
    then have "\<not> isspace (hd (dropWhile isspace s))"
      by (rule hd_dropWhile)
    moreover have "hd (dropWhile isspace s) \<in> set (dropWhile isspace s)"
      using ne by (rule hd_in_set)
    ultimately show False
      using all by blast
  qed
  then show "list_all isspace s"
    by (induction s) (simp_all split: if_splits)
qed

section \<open>Adding and listing\<close>




section \<open>Filters\<close>

text \<open>
  Claim C10. Every filter string other than \<open>"COMPLETED"\<close> and \<open>"PENDING"\<close> lists what
  \<open>"ALL"\<close> lists: all rows of the date, whatever their completion flag.
\<close>

theorem get_tasks_other_filter:
  assumes "f \<noteq> lit ''COMPLETED''" and "f \<noteq> lit ''PENDING''"
  shows "get_tasks D f S = get_tasks D (lit ''ALL'') S \<and>
         get_tasks D f S = map select_row (filter (\<lambda>r. task_date r = D) (tasks S))"
  using assms by (simp add: get_tasks_def where_clause_other where_clause_ALL cong: filter_cong)

theorem get_tasks_other_filter_witness:
  "lit ''completed'' \<noteq> lit ''COMPLETED'' \<and> lit ''completed'' \<noteq> lit ''PENDING'' \<and>
   get_tasks (lit ''2024-01-01'') (lit ''completed'') example_store =
   get_tasks (lit ''2024-01-01'') (lit ''ALL'') example_store"
proof -
  have h1: "lit ''completed'' \<noteq> lit ''COMPLETED''" and h2: "lit ''completed'' \<noteq> lit ''PENDING''"
    by (simp_all add: lit_def)
  show ?thesis
    using h1 h2 get_tasks_other_filter [OF h1 h2] by blast
qed

text \<open>
  Claim C2. In a store that satisfies the invariant, for every date \<open>D\<close>: each row that
  \<open>get_tasks D "COMPLETED"\<close> returns is the selection of a stored row with
  \<open>is_completed = 1\<close> and date \<open>D\<close>; each row that \<open>get_tasks D "PENDING"\<close> returns is the
  selection of a stored row with \<open>is_completed = 0\<close> and date \<open>D\<close>; the rows of
  \<open>get_tasks D "ALL"\<close> are those of the two together; and the length of the \<open>"ALL"\<close> result
  is the sum of the lengths of the other two.
\<close>

theorem get_tasks_completed_pending:
  assumes "store_inv S"
  shows "(\<forall>x \<in> set (get_tasks D (lit ''COMPLETED'') S).
            \<exists>r \<in> set (tasks S). x = select_row r \<and> is_completed r = 1 \<and> task_date r = D) \<and>
         (\<forall>x \<in> set (get_tasks D (lit ''PENDING'') S).
            \<exists>r \<in> set (tasks S). x = select_row r \<and> is_completed r = 0 \<and> task_date r = D) \<and>
         set (get_tasks D (lit ''ALL'') S) =
           set (get_tasks D (lit ''COMPLETED'') S) \<union> set (get_tasks D (lit ''PENDING'') S) \<and>
         length (get_tasks D (lit ''ALL'') S) =
           length (get_tasks D (lit ''COMPLETED'') S) + length (get_tasks D (lit ''PENDING'') S)"
proof -
  have flag: "\<And>r. r \<in> set (tasks S) \<Longrightarrow> is_completed r = 0 \<or> is_completed r = 1"
    using assms by (rule store_inv_flag)
  have c: "\<forall>x \<in> set (get_tasks D (lit ''COMPLETED'') S).
            \<exists>r \<in> set (tasks S). x = select_row r \<and> is_completed r = 1 \<and> task_date r = D"
    by (auto simp: get_tasks_def where_clause_COMPLETED)
  have p: "\<forall>x \<in> set (get_tasks D (lit ''PENDING'') S).
            \<exists>r \<in> set (tasks S). x = select_row r \<and> is_completed r = 0 \<and> task_date r = D"
    by (auto simp: get_tasks_def where_clause_PENDING)
  have u: "set (get_tasks D (lit ''ALL'') S) =
           set (get_tasks D (lit ''COMPLETED'') S) \<union> set (get_tasks D (lit ''PENDING'') S)"
    using flag
    by (auto simp: get_tasks_def where_clause_ALL where_clause_COMPLETED where_clause_PENDING)
  have l: "length (get_tasks D (lit ''ALL'') S) =
           length (get_tasks D (lit ''COMPLETED'') S) + length (get_tasks D (lit ''PENDING'') S)"
    using filter_flag_split[of "tasks S" D] flag
    by (simp add: get_tasks_def where_clause_ALL where_clause_COMPLETED where_clause_PENDING
        cong: filter_cong)
  from c p u l show ?thesis by blast
qed

theorem get_tasks_completed_pending_witness:
  "store_inv example_store \<and>
   get_tasks (lit ''2024-01-01'') (lit ''COMPLETED'') example_store =
     [(1, lit ''Buy milk'', lit ''Medium'', 1)] \<and>
   get_tasks (lit ''2024-01-01'') (lit ''PENDING'') example_store =
     [(2, lit ''Call Bob'', lit ''High'', 0)] \<and>
   set (get_tasks (lit ''2024-01-01'') (lit ''ALL'') example_store) =
     {(1, lit ''Buy milk'', lit ''Medium'', 1), (2, lit ''Call Bob'', lit ''High'', 0)} \<and>
   length (get_tasks (lit ''2024-01-01'') (lit ''ALL'') example_store) = 2"
proof -
  have h: "store_inv example_store"
    by (simp add: store_inv_def example_store_def)
  have c: "get_tasks (lit ''2024-01-01'') (lit ''COMPLETED'') example_store
      = [(1, lit ''Buy milk'', lit ''Medium'', 1)]"
    by (simp add: get_tasks_def where_clause_COMPLETED select_row_def example_store_def)
  have p: "get_tasks (lit ''2024-01-01'') (lit ''PENDING'') example_store
      = [(2, lit ''Call Bob'', lit ''High'', 0)]"
    by (simp add: get_tasks_def where_clause_PENDING select_row_def example_store_def)
  show ?thesis
    using h get_tasks_completed_pending [OF h, of "lit ''2024-01-01''"]
    by (simp only: c p) auto
qed

section \<open>Dates\<close>

text \<open>
  Claim C3. For dates \<open>D1 \<noteq> D2\<close> and every filter: \<open>add_task\<close> with date \<open>D1\<close> returns
  (a rowid being left, and the arguments holding no surrogate code point: the calls that
  these two conditions leave out raise and insert no task), the new row, of a fresh
  identifier \<open>i\<close>, is listed under \<open>D1\<close>, the listing of \<open>D2\<close> is what it was before the
  call, and after every further sequence of calls no listing of \<open>D2\<close> holds a row of
  identifier \<open>i\<close>.
\<close>

theorem date_isolation:
  assumes "max (largest_rowid (tasks S)) (sqlite_sequence S) < MAX_ROWID" and "D1 \<noteq> D2"
    and "encodable t" and "encodable p" and "encodable D1"
  shows "\<exists>S' i. add_task now t p D1 S = Inr S' \<and>
           (i, t, p, 0) \<in> set (get_tasks D1 (lit ''ALL'') S') \<and>
           i \<notin> task_id ` set (tasks S) \<and>
           get_tasks D2 f S' = get_tasks D2 f S \<and>
           (\<forall>ops. i \<notin> fst ` set (get_tasks D2 f (run ops S')))"
proof -
  from assms(1) obtain i where i: "new_rowid S = Inr i"
    using new_rowid_Inr_iff by blast
  let ?r = "\<lparr>task_id = i, title = t, priority = p, is_completed = 0,
             task_date = D1, created_at = now\<rparr>"
  let ?S' = "\<lparr>tasks = tasks S @ [?r], sqlite_sequence = i\<rparr>"
  have 1: "add_task now t p D1 S = Inr ?S'"
    by (rule add_task_append[OF i assms(3) assms(4) assms(5)])
  have 2: "(i, t, p, 0) \<in> set (get_tasks D1 (lit ''ALL'') ?S')"
    by (simp add: get_tasks_def where_clause_ALL select_row_def)
  have fresh: "\<forall>r \<in> set (tasks S). task_id r \<noteq> i"
    using new_rowid_fresh(1)[OF i] by fastforce
  then have 3: "i \<notin> task_id ` set (tasks S)" by blast
  have "\<not> where_clause D2 f ?r"
    using assms(2) where_clause_date[of D2 f ?r] by auto
  then have 4: "get_tasks D2 f ?S' = get_tasks D2 f S"
    by (simp add: get_tasks_def)
  have 5: "\<forall>ops. i \<notin> fst ` set (get_tasks D2 f (run ops ?S'))"
  proof (intro allI notI)
    fix ops
    assume "i \<in> fst ` set (get_tasks D2 f (run ops ?S'))"
    then obtain r where r: "r \<in> set (tasks (run ops ?S'))" "where_clause D2 f r" "task_id r = i"
      by (auto simp: get_tasks_def select_row_def)
    have "\<forall>r \<in> set (tasks ?S'). task_id r = i \<longrightarrow> task_date r = D1"
      using fresh by simp
    then have "\<forall>r \<in> set (tasks (run ops ?S')). task_id r = i \<longrightarrow> task_date r = D1"
      by (intro run_keeps_date) simp_all
    with r have "task_date r = D1" by blast
    moreover have "task_date r = D2" using r(2) by (rule where_clause_date)
    ultimately show False using assms(2) by simp
  qed
  from 1 2 3 4 5 show ?thesis by blast
qed

theorem date_isolation_witness:
  "max (largest_rowid (tasks example_store)) (sqlite_sequence example_store) < MAX_ROWID \<and>
   lit ''2024-01-02'' \<noteq> lit ''2024-01-01'' \<and>
   encodable (lit ''Pay rent'') \<and> encodable (lit ''Low'') \<and> encodable (lit ''2024-01-02'') \<and>
   (\<exists>S' i. add_task (lit ''2024-01-01 09:10:00'') (lit ''Pay rent'') (lit ''Low'')
              (lit ''2024-01-02'') example_store = Inr S' \<and>
      (i, lit ''Pay rent'', lit ''Low'', 0) \<in> set (get_tasks (lit ''2024-01-02'') (lit ''ALL'') S') \<and>
      i \<notin> task_id ` set (tasks example_store) \<and>
      get_tasks (lit ''2024-01-01'') (lit ''ALL'') S' =
        get_tasks (lit ''2024-01-01'') (lit ''ALL'') example_store \<and>
      (\<forall>ops. i \<notin> fst ` set (get_tasks (lit ''2024-01-01'') (lit ''ALL'') (run ops S'))))"
proof -
  have h1: "max (largest_rowid (tasks example_store)) (sqlite_sequence example_store) < MAX_ROWID"
    by (simp add: MAX_ROWID_def example_store_def)
  have h2: "lit ''2024-01-02'' \<noteq> lit ''2024-01-01''"
    by (simp add: lit_def)
  have e1: "encodable (lit ''Pay rent'')" and e2: "encodable (lit ''Low'')"
    and e3: "encodable (lit ''2024-01-02'')"
    by (simp_all add: encodable_def is_surrogate_def lit_def)
  show ?thesis
    using h1 h2 e1 e2 e3 date_isolation [OF h1 h2 e1 e2 e3] by blast
qed

section \<open>Updating and deleting\<close>

text \<open>
  Claim C4. In a store that satisfies the invariant, for a row that is present and whose
  completion flag is that of \<open>b\<close>: \<open>update_task\<close> with \<open>not b\<close> followed by \<open>update_task\<close>
  with \<open>b\<close>, both on the identifier of the row, gives back the store as it was.
\<close>

theorem toggle_twice:
  assumes "store_inv S" and "r \<in> set (tasks S)" and "is_completed r = of_bool b"
  shows "update_task (task_id r) b (update_task (task_id r) (\<not> b) S) = S"
proof -
  have inj: "inj_on task_id (set (tasks S))"
    using store_inv_distinct[OF assms(1)] by (simp add: distinct_map)
  have "(if task_id x = task_id r then x\<lparr>is_completed := of_bool b\<rparr> else x) = x"
    if "x \<in> set (tasks S)" for x
  proof (cases "task_id x = task_id r")
    case True
    with inj that assms(2) have "x = r" by (auto dest: inj_onD)
    with assms(3) show ?thesis by simp
  next
    case False
    then show ?thesis by simp
  qed
  then have "map (\<lambda>x. if task_id x = task_id r then x\<lparr>is_completed := of_bool b\<rparr> else x) (tasks S)
      = tasks S"
    by (simp add: map_idI)
  then show ?thesis
    by (simp add: update_task_def o_def if_distrib[of task_id] cong: if_cong)
qed

theorem toggle_twice_witness:
  "store_inv example_store \<and>
   hd (tasks example_store) \<in> set (tasks example_store) \<and>
   task_id (hd (tasks example_store)) = 1 \<and>
   is_completed (hd (tasks example_store)) = of_bool True \<and>
   update_task 1 True (update_task 1 False example_store) = example_store"
proof -
  have h1: "store_inv example_store"
    by (simp add: store_inv_def example_store_def)
  have h2: "hd (tasks example_store) \<in> set (tasks example_store)"
    by (simp add: example_store_def)
  have h3: "is_completed (hd (tasks example_store)) = of_bool True"
    by (simp add: example_store_def)
  have i: "task_id (hd (tasks example_store)) = 1"
    by (simp add: example_store_def)
  show ?thesis
    using h1 h2 h3 i toggle_twice [OF h1 h2 h3] by simp
qed

text \<open>
  Claim C5. After \<open>delete_task i\<close>, and after every sequence of further calls in which no
  \<open>add_task\<close> is assigned the identifier \<open>i\<close>, no \<open>get_tasks\<close>, for any date and any filter,
  returns a row of identifier \<open>i\<close>. (\<open>get_tasks\<close> itself does not change the store. By
  \<open>deleted_id_never_reassigned\<close>, when \<open>i\<close> was the identifier of a row of a store that
  satisfies the invariant, no later \<open>add_task\<close> is assigned \<open>i\<close>.)
\<close>

theorem delete_task_permanent:
  assumes "i \<notin> set (assigned ops (delete_task i S))"
  shows "i \<notin> fst ` set (get_tasks D f (run ops (delete_task i S)))"
proof
  assume "i \<in> fst ` set (get_tasks D f (run ops (delete_task i S)))"
  then have "i \<in> task_id ` set (tasks (run ops (delete_task i S)))"
    using get_tasks_ids by blast
  then have "i \<in> task_id ` set (tasks (delete_task i S)) \<union> set (assigned ops (delete_task i S))"
    using ids_run by blast
  with assms delete_task_absent[of i S] show False by blast
qed

theorem delete_task_permanent_witness:
  "1 \<notin> set (assigned [AddTask [] (lit ''Pay rent'') (lit ''Low'') (lit ''2024-01-01''),
                       UpdateTask 1 True] (delete_task 1 example_store)) \<and>
   1 \<notin> fst ` set (get_tasks (lit ''2024-01-01'') (lit ''ALL'')
     (run [AddTask [] (lit ''Pay rent'') (lit ''Low'') (lit ''2024-01-01''), UpdateTask 1 True]
        (delete_task 1 example_store)))"
proof -
  have h: "1 \<notin> set (assigned [AddTask [] (lit ''Pay rent'') (lit ''Low'') (lit ''2024-01-01''),
      UpdateTask 1 True] (delete_task 1 example_store))"
    by (simp add: delete_task_def new_rowid_def MAX_ROWID_def example_store_def
        encodable_def is_surrogate_def lit_def)
  show ?thesis
    using h delete_task_permanent [OF h] by blast
qed

text \<open>
  Claim C7. In a store that satisfies the invariant: \<open>update_task i b\<close> leaves the
  \<open>sqlite_sequence\<close> entry and the number of rows as they are; the row at each position is
  the row that was there, with \<open>is_completed\<close> set to the integer of \<open>b\<close> and every other
  column as it was when its identifier is \<open>i\<close>, and unchanged otherwise; one row has the
  identifier \<open>i\<close> when it is present and none when it is not, and then the store is
  unchanged. \<open>delete_task i\<close> leaves the \<open>sqlite_sequence\<close> entry as it is; the rows left
  are the rows of other identifiers, each as it was; the table shrinks by one row when \<open>i\<close>
  is present and by none otherwise, and then the store is unchanged.
\<close>

theorem update_delete_frame:
  assumes "store_inv S"
  shows "sqlite_sequence (update_task i b S) = sqlite_sequence S \<and>
         length (tasks (update_task i b S)) = length (tasks S) \<and>
         (\<forall>k < length (tasks S). tasks (update_task i b S) ! k =
            (if task_id (tasks S ! k) = i then (tasks S ! k)\<lparr>is_completed := of_bool b\<rparr>
             else tasks S ! k)) \<and>
         length (filter (\<lambda>r. task_id r = i) (tasks S)) =
            (if i \<in> task_id ` set (tasks S) then 1 else 0) \<and>
         (i \<notin> task_id ` set (tasks S) \<longrightarrow> update_task i b S = S) \<and>
         sqlite_sequence (delete_task i S) = sqlite_sequence S \<and>
         (\<forall>r. r \<in> set (tasks (delete_task i S)) \<longleftrightarrow> r \<in> set (tasks S) \<and> task_id r \<noteq> i) \<and>
         length (tasks (delete_task i S)) + (if i \<in> task_id ` set (tasks S) then 1 else 0) =
            length (tasks S) \<and>
         (i \<notin> task_id ` set (tasks S) \<longrightarrow> delete_task i S = S)"
proof -
  have cnt: "length (filter (\<lambda>r. task_id r = i) (tasks S)) =
      (if i \<in> task_id ` set (tasks S) then 1 else 0)"
    using store_inv_distinct[OF assms] by (rule count_id_le_1)
  have u1: "sqlite_sequence (update_task i b S) = sqlite_sequence S"
    by (simp add: update_task_def)
  have u2: "length (tasks (update_task i b S)) = length (tasks S)"
    by (simp add: update_task_def)
  have u3: "\<forall>k < length (tasks S). tasks (update_task i b S) ! k =
            (if task_id (tasks S ! k) = i then (tasks S ! k)\<lparr>is_completed := of_bool b\<rparr>
             else tasks S ! k)"
    by (simp add: update_task_def)
  have u5: "i \<notin> task_id ` set (tasks S) \<longrightarrow> update_task i b S = S"
  proof
    assume "i \<notin> task_id ` set (tasks S)"
    then have "map (\<lambda>r. if task_id r = i then r\<lparr>is_completed := of_bool b\<rparr> else r) (tasks S)
        = tasks S"
      by (intro map_idI) auto
    then show "update_task i b S = S"
      by (simp add: update_task_def)
  qed
  have d1: "sqlite_sequence (delete_task i S) = sqlite_sequence S"
    by (simp add: delete_task_def)
  have d2: "\<forall>r. r \<in> set (tasks (delete_task i S)) \<longleftrightarrow> r \<in> set (tasks S) \<and> task_id r \<noteq> i"
    by (simp add: delete_task_def)
  have d3: "length (tasks (delete_task i S)) + (if i \<in> task_id ` set (tasks S) then 1 else 0) =
            length (tasks S)"
    using sum_length_filter_compl[of "\<lambda>r. task_id r = i" "tasks S"] cnt
    by (simp add: delete_task_def)
  have d4: "i \<notin> task_id ` set (tasks S) \<longrightarrow> delete_task i S = S"
  proof
    assume "i \<notin> task_id ` set (tasks S)"
    then have "filter (\<lambda>r. task_id r \<noteq> i) (tasks S) = tasks S"
      by (auto simp: filter_id_conv)
    then show "delete_task i S = S"
      by (simp add: delete_task_def)
  qed
  from u1 u2 u3 cnt u5 d1 d2 d3 d4 show ?thesis by blast
qed

theorem update_delete_frame_witness:
  "store_inv example_store \<and>
   sqlite_sequence (update_task 1 False example_store) = sqlite_sequence example_store \<and>
   length (tasks (update_task 1 False example_store)) = length (tasks example_store) \<and>
   length (tasks (delete_task 1 example_store)) + 1 = length (tasks example_store) \<and>
   7 \<notin> task_id ` set (tasks example_store) \<and>
   update_task 7 True example_store = example_store \<and>
   delete_task 7 example_store = example_store"
proof -
  have h: "store_inv example_store"
    by (simp add: store_inv_def example_store_def)
  have p: "1 \<in> task_id ` set (tasks example_store)"
    by (simp add: example_store_def)
  have a: "7 \<notin> task_id ` set (tasks example_store)"
    by (simp add: example_store_def)
  show ?thesis
    using h p a update_delete_frame [OF h, of 1 False] update_delete_frame [OF h, of 7 True]
    by presburger
qed

section \<open>Identifiers and order\<close>

text \<open>
  Claim C9. In every store reached from the newly created one by \<open>add_task\<close>, \<open>update_task\<close>
  and \<open>delete_task\<close>, no two rows have the same identifier; the identifiers assigned by the
  calls of \<open>add_task\<close>, in the order of the calls, are strictly increasing, so each is
  greater than every identifier assigned before it; and every identifier in the table is
  one of them.
\<close>

theorem ids_unique_increasing:
  "distinct (map task_id (tasks (run ops (create_table None)))) \<and>
   sorted_wrt (<) (assigned ops (create_table None)) \<and>
   task_id ` set (tasks (run ops (create_table None))) \<subseteq> set (assigned ops (create_table None))"
proof -
  have "store_inv (run ops (create_table None))"
    using store_inv_create_table by (rule store_inv_run)
  then have "distinct (map task_id (tasks (run ops (create_table None))))"
    by (rule store_inv_distinct)
  moreover have "task_id ` set (tasks (run ops (create_table None)))
      \<subseteq> set (assigned ops (create_table None))"
    using ids_run[of ops "create_table None"] by (simp add: create_table_def)
  ultimately show ?thesis
    using sorted_assigned by blast
qed

theorem ids_unique_increasing_witness:
  "distinct (map task_id (tasks (run example_calls (create_table None)))) \<and>
   sorted_wrt (<) (assigned example_calls (create_table None)) \<and>
   task_id ` set (tasks (run example_calls (create_table None)))
     \<subseteq> set (assigned example_calls (create_table None))"
  by (rule ids_unique_increasing)

text \<open>
  Claim C8. In every store reached from the newly created one, for every date and filter:
  the identifiers of the rows that \<open>get_tasks\<close> returns, in the order it returns them, are
  the identifiers assigned by the calls of \<open>add_task\<close>, in the order of those calls, with
  the ones that are not listed left out. The rows listed appear in the order in which they
  were added.
\<close>

theorem get_tasks_insertion_order:
  "map fst (get_tasks D f (run ops (create_table None))) =
   filter (\<lambda>i. i \<in> fst ` set (get_tasks D f (run ops (create_table None))))
     (assigned ops (create_table None))"
proof -
  let ?S = "run ops (create_table None)"
  let ?G = "\<lambda>i. i \<in> fst ` set (get_tasks D f ?S)"
  let ?F = "\<lambda>j. j \<in> task_id ` set (tasks ?S)"
  have inv: "store_inv ?S"
    using store_inv_create_table by (rule store_inv_run)
  have fst_sel: "map fst (get_tasks D f ?S) = map task_id (filter (where_clause D f) (tasks ?S))"
    by (simp add: get_tasks_def select_row_def o_def)
  have G: "fst ` set (get_tasks D f ?S) = task_id ` set (filter (where_clause D f) (tasks ?S))"
    using arg_cong[OF fst_sel, of set] by simp
  have "map fst (get_tasks D f ?S) = filter ?G (map task_id (tasks ?S))"
    using map_filter_distinct[OF store_inv_distinct[OF inv], of "where_clause D f"]
    by (simp only: fst_sel G)
  also have "map task_id (tasks ?S) = filter ?F (assigned ops (create_table None))"
    using ids_run_order[OF store_inv_create_table, of ops] by (simp add: create_table_def)
  also have "filter ?G (filter ?F (assigned ops (create_table None)))
      = filter ?G (assigned ops (create_table None))"
    using get_tasks_ids[of D f ?S] by (intro filter_filter_sub) blast
  finally show ?thesis .
qed

theorem get_tasks_insertion_order_witness:
  "map fst (get_tasks (lit ''2024-01-01'') (lit ''ALL'') (run example_calls (create_table None))) =
   filter (\<lambda>i. i \<in> fst ` set (get_tasks (lit ''2024-01-01'') (lit ''ALL'')
                                  (run example_calls (create_table None))))
     (assigned example_calls (create_table None))"
  by (rule get_tasks_insertion_order)

section \<open>The add-task action\<close>

text \<open>
  Claim C6. When the input field is empty or holds white space only, the add-task action
  of the controller returns without an error and leaves the whole state of the
  application, the store included, as it was: no row is inserted.
\<close>

theorem app_add_task_blank:
  assumes "list_all isspace (task_input a)"
  shows "app_add_task now a = Inr a"
  using assms by (simp add: app_add_task_def strip_Nil_iff)

theorem app_add_task_blank_witness:
  "list_all isspace [32, 9, 32] \<and>
   app_add_task (lit ''2024-01-01 09:00:00'')
     \<lparr>db = create_table None, selected_date = lit ''2024-01-01'', current_filter = lit ''ALL'',
      task_input = [32, 9, 32], priority_dropdown = lit ''Medium'', tasks_column = []\<rparr> =
   Inr \<lparr>db = create_table None, selected_date = lit ''2024-01-01'', current_filter = lit ''ALL'',
      task_input = [32, 9, 32], priority_dropdown = lit ''Medium'', tasks_column = []\<rparr>"
proof -
  have h: "list_all isspace [32, 9, 32]"
    by (simp add: isspace_def)
  show ?thesis
    using h app_add_task_blank [of "\<lparr>db = create_table None, selected_date = lit ''2024-01-01'',
      current_filter = lit ''ALL'', task_input = [32, 9, 32], priority_dropdown = lit ''Medium'',
      tasks_column = []\<rparr>" "lit ''2024-01-01 09:00:00''"]
    by simp
qed

end
